theory Spec2Isabelle
  imports Main
begin

section \<open>The Redis data of one sorted feed\<close>

text \<open>
  \<^verbatim>\<open>SortedFeed\<close> (src/thoonk/feeds/sorted\_feed.py) keeps one feed in five Redis keys
  and two pub/sub channels. The key names are attributes set by the base class
  \<^verbatim>\<open>Feed\<close> and by \<^verbatim>\<open>__init__\<close>; the record below has one field per attribute.
  Ids are the integer replies of \<^verbatim>\<open>INCR\<close>; item contents are strings.
  The two channel fields hold the messages published so far, oldest first.
  \<open>id_replies\<close> is a history variable: the replies of every
  \<^verbatim>\<open>redis.incr(self.feed_id_incr)\<close> so far, oldest first. Redis does not store it.
\<close>

record feed =
  feed_ids :: "int list"
  feed_items :: "int \<rightharpoonup> string"
  feed_id_incr :: int
  feed_publishes :: int
  feed_publish :: "string list"
  feed_retract :: "string list"
  id_replies :: "int list"

datatype placement = BEFORE | AFTER

datatype error = WatchError

subsection \<open>Formatting of the notification\<close>

text \<open>
  Python's \<^verbatim>\<open>'%s' % id\<close> on an integer is its decimal numeral, with a minus sign when
  negative. \<^verbatim>\<open>'%s\x00%s' % (id, item)\<close> joins it to the item with one NUL byte.
\<close>

definition digit_char :: "nat \<Rightarrow> char" where
  "digit_char n = ''0123456789'' ! n"

function str_nat :: "nat \<Rightarrow> string" where
  "str_nat n = (if n < 10 then [digit_char n] else str_nat (n div 10) @ [digit_char (n mod 10)])"
  by pat_completeness auto
termination
  by (relation "measure (\<lambda>n. n)") auto

declare str_nat.simps [simp del]

definition str_int :: "int \<Rightarrow> string" where
  "str_int i = (if i < 0 then CHR ''-'' # str_nat (nat (- i)) else str_nat (nat i))"

definition publish_message :: "int \<Rightarrow> string \<Rightarrow> string" where
  "publish_message i item = str_int i @ [CHR 0x00] @ item"

subsection \<open>Redis commands\<close>

text \<open>
  \<^verbatim>\<open>INCR key\<close> adds one to the counter and replies with the new value.
\<close>

definition incr_id :: "feed \<Rightarrow> int \<times> feed" where
  "incr_id f =
     (feed_id_incr f + 1,
      f\<lparr>feed_id_incr := feed_id_incr f + 1, id_replies := id_replies f @ [feed_id_incr f + 1]\<rparr>)"

text \<open>
  \<^verbatim>\<open>LINSERT key BEFORE|AFTER pivot value\<close> inserts next to the first element equal to
  the pivot and leaves the list as it is when no element is.
\<close>

fun linsert :: "placement \<Rightarrow> int \<Rightarrow> int \<Rightarrow> int list \<Rightarrow> int list" where
  "linsert m pivot v [] = []"
| "linsert m pivot v (x # xs) =
     (if x = pivot then (case m of BEFORE \<Rightarrow> v # x # xs | AFTER \<Rightarrow> x # v # xs)
      else x # linsert m pivot v xs)"

text \<open>
  \<^verbatim>\<open>LREM key count value\<close> with a positive count removes the first \<open>count\<close> elements
  equal to the value, head to tail; with count 0 it removes all of them. The client
  library of the time takes \<^verbatim>\<open>lrem(name, value, num)\<close>, so
  \<^verbatim>\<open>pipe.lrem(self.feed_ids, id, 1)\<close> is \<^verbatim>\<open>LREM feed.ids 1 id\<close>.
\<close>

fun lrem_first :: "nat \<Rightarrow> int \<Rightarrow> int list \<Rightarrow> int list" where
  "lrem_first 0 v xs = xs"
| "lrem_first (Suc n) v [] = []"
| "lrem_first (Suc n) v (x # xs) =
     (if x = v then lrem_first n v xs else x # lrem_first (Suc n) v xs)"

definition lrem :: "int \<Rightarrow> nat \<Rightarrow> int list \<Rightarrow> int list" where
  "lrem v num xs = (if num = 0 then filter (\<lambda>x. x \<noteq> v) xs else lrem_first num v xs)"

definition hexists :: "feed \<Rightarrow> int \<Rightarrow> bool" where
  "hexists f i = (feed_items f i \<noteq> None)"

text \<open>The commands a pipeline of this class queues, and what each does when it runs.\<close>

datatype command =
    LPUSH int
  | RPUSH int
  | LINSERT placement int int
  | LREM int nat
  | HSET int string
  | HDEL int
  | INCR_PUBLISHES
  | PUBLISH_PUBLISH string
  | PUBLISH_RETRACT string

fun run_command :: "command \<Rightarrow> feed \<Rightarrow> feed" where
  "run_command (LPUSH i) f = f\<lparr>feed_ids := i # feed_ids f\<rparr>"
| "run_command (RPUSH i) f = f\<lparr>feed_ids := feed_ids f @ [i]\<rparr>"
| "run_command (LINSERT m pivot i) f = f\<lparr>feed_ids := linsert m pivot i (feed_ids f)\<rparr>"
| "run_command (LREM i num) f = f\<lparr>feed_ids := lrem i num (feed_ids f)\<rparr>"
| "run_command (HSET i item) f = f\<lparr>feed_items := (feed_items f)(i \<mapsto> item)\<rparr>"
| "run_command (HDEL i) f = f\<lparr>feed_items := (feed_items f)(i := None)\<rparr>"
| "run_command INCR_PUBLISHES f = f\<lparr>feed_publishes := feed_publishes f + 1\<rparr>"
| "run_command (PUBLISH_PUBLISH msg) f = f\<lparr>feed_publish := feed_publish f @ [msg]\<rparr>"
| "run_command (PUBLISH_RETRACT msg) f = f\<lparr>feed_retract := feed_retract f @ [msg]\<rparr>"

text \<open>
  \<^verbatim>\<open>pipe.execute()\<close> sends the queued commands between \<^verbatim>\<open>MULTI\<close> and
  \<^verbatim>\<open>EXEC\<close>: they run in the order queued, with no command of another connection
  between them.
\<close>

definition run_pipeline :: "command list \<Rightarrow> feed \<Rightarrow> feed" where
  "run_pipeline pipe f = fold run_command pipe f"

subsection \<open>The connection: WATCH, UNWATCH and EXEC\<close>

text \<open>
  A connection remembers whether it watches \<^verbatim>\<open>feed.items\<close> and whether another
  connection has written that key since. \<^verbatim>\<open>EXEC\<close> of a connection whose watched
  key was written replies nil, which the client raises as \<^verbatim>\<open>WatchError\<close>;
  \<^verbatim>\<open>EXEC\<close> and \<^verbatim>\<open>UNWATCH\<close> both forget the watch.
\<close>

record conn =
  watching :: bool
  dirty :: bool

definition idle :: conn where
  "idle = \<lparr>watching = False, dirty = False\<rparr>"

definition watch :: "conn \<Rightarrow> conn" where
  "watch c = c\<lparr>watching := True\<rparr>"

definition unwatch :: "conn \<Rightarrow> conn" where
  "unwatch c = idle"

definition touched :: "conn \<Rightarrow> conn" where
  "touched c = c\<lparr>dirty := (dirty c \<or> watching c)\<rparr>"

definition execute :: "command list \<Rightarrow> feed \<times> conn \<Rightarrow> (error + unit) \<times> feed \<times> conn" where
  "execute pipe s =
     (case s of (f, c) \<Rightarrow>
        if dirty c then (Inl WatchError, f, unwatch c)
        else (Inr (), run_pipeline pipe f, unwatch c))"

section \<open>The methods of SortedFeed\<close>

text \<open>
  \<^verbatim>\<open>publish\<close>, \<^verbatim>\<open>append\<close> and \<^verbatim>\<open>prepend\<close> hold no watch, so their pipeline
  always commits.
\<close>

definition publish :: "string \<Rightarrow> feed \<Rightarrow> int \<times> feed" where
  "publish item f =
     (case incr_id f of (i, f1) \<Rightarrow>
        (i, run_pipeline
              [RPUSH i, INCR_PUBLISHES, HSET i item, PUBLISH_PUBLISH (publish_message i item)] f1))"

definition append :: "string \<Rightarrow> feed \<Rightarrow> int \<times> feed" where
  "append item f = publish item f"

definition prepend :: "string \<Rightarrow> feed \<Rightarrow> int \<times> feed" where
  "prepend item f =
     (case incr_id f of (i, f1) \<Rightarrow>
        (i, run_pipeline
              [LPUSH i, INCR_PUBLISHES, HSET i item, PUBLISH_PUBLISH (publish_message i item)] f1))"

text \<open>
  The three check-then-act methods loop until \<^verbatim>\<open>EXEC\<close> commits or the
  existence check fails. A loop that never leaves has the value \<open>None\<close>.
  \<^verbatim>\<open>__insert\<close> returns the new id, or Python's \<^verbatim>\<open>None\<close> from the bare
  \<^verbatim>\<open>return\<close>; \<^verbatim>\<open>edit\<close> and \<^verbatim>\<open>retract\<close> return nothing.
\<close>

partial_function (option) insert_loop ::
  "int \<Rightarrow> string \<Rightarrow> int \<Rightarrow> placement \<Rightarrow> feed \<times> conn \<Rightarrow> (int option \<times> feed \<times> conn) option" where
  "insert_loop i item rel_id m s =
     (case s of (f, c) \<Rightarrow>
        (let c1 = watch c in
         if \<not> hexists f rel_id then Some (None, f, unwatch c1)
         else (case execute
                      [LINSERT m rel_id i, HSET i item, PUBLISH_PUBLISH (publish_message i item)]
                      (f, c1) of
                 (Inr u, s') \<Rightarrow> Some (Some i, s')
               | (Inl WatchError, s') \<Rightarrow> insert_loop i item rel_id m s')))"

definition feed_insert :: "string \<Rightarrow> int \<Rightarrow> placement \<Rightarrow> feed \<Rightarrow> (int option \<times> feed) option" where
  "feed_insert item rel_id m f =
     (case incr_id f of (i, f1) \<Rightarrow>
        map_option (\<lambda>(r, f', c). (r, f')) (insert_loop i item rel_id m (f1, idle)))"

definition publish_before :: "int \<Rightarrow> string \<Rightarrow> feed \<Rightarrow> (int option \<times> feed) option" where
  "publish_before before_id item f = feed_insert item before_id BEFORE f"

definition publish_after :: "int \<Rightarrow> string \<Rightarrow> feed \<Rightarrow> (int option \<times> feed) option" where
  "publish_after after_id item f = feed_insert item after_id AFTER f"

partial_function (option) edit_loop ::
  "int \<Rightarrow> string \<Rightarrow> feed \<times> conn \<Rightarrow> (feed \<times> conn) option" where
  "edit_loop i item s =
     (case s of (f, c) \<Rightarrow>
        (let c1 = watch c in
         if \<not> hexists f i then Some (f, unwatch c1)
         else (case execute
                      [HSET i item, INCR_PUBLISHES, PUBLISH_PUBLISH (publish_message i item)]
                      (f, c1) of
                 (Inr u, s') \<Rightarrow> Some s'
               | (Inl WatchError, s') \<Rightarrow> edit_loop i item s')))"

definition edit :: "int \<Rightarrow> string \<Rightarrow> feed \<Rightarrow> feed option" where
  "edit i item f = map_option fst (edit_loop i item (f, idle))"

partial_function (option) retract_loop :: "int \<Rightarrow> feed \<times> conn \<Rightarrow> (feed \<times> conn) option" where
  "retract_loop i s =
     (case s of (f, c) \<Rightarrow>
        (let c1 = watch c in
         if hexists f i then
           (case execute [LREM i 1, HDEL i, PUBLISH_RETRACT (str_int i)] (f, c1) of
              (Inr u, s') \<Rightarrow> Some s'
            | (Inl WatchError, s') \<Rightarrow> retract_loop i s')
         else Some (f, unwatch c1)))"

definition retract :: "int \<Rightarrow> feed \<Rightarrow> feed option" where
  "retract i f = map_option fst (retract_loop i (f, idle))"

definition get_ids :: "feed \<Rightarrow> int list" where
  "get_ids f = feed_ids f"

definition get_item :: "int \<Rightarrow> feed \<Rightarrow> string option" where
  "get_item i f = feed_items f i"

definition get_items :: "feed \<Rightarrow> (int \<rightharpoonup> string)" where
  "get_items f = feed_items f"

section \<open>Sequences of calls and the invariants\<close>

text \<open>
  A caller's request, and the value the method returns to it: the id, or Python's
  \<^verbatim>\<open>None\<close>. \<open>run\<close> makes the calls of a list one after the other on one feed.
\<close>

datatype op =
    Publish string
  | Append string
  | Prepend string
  | Publish_before int string
  | Publish_after int string
  | Edit int string
  | Retract int

fun call :: "op \<Rightarrow> feed \<Rightarrow> (int option \<times> feed) option" where
  "call (Publish item) f = (case publish item f of (i, f') \<Rightarrow> Some (Some i, f'))"
| "call (Append item) f = (case append item f of (i, f') \<Rightarrow> Some (Some i, f'))"
| "call (Prepend item) f = (case prepend item f of (i, f') \<Rightarrow> Some (Some i, f'))"
| "call (Publish_before rel_id item) f = publish_before rel_id item f"
| "call (Publish_after rel_id item) f = publish_after rel_id item f"
| "call (Edit i item) f = map_option (\<lambda>f'. (None, f')) (edit i item f)"
| "call (Retract i) f = map_option (\<lambda>f'. (None, f')) (retract i f)"

fun run :: "op list \<Rightarrow> feed \<Rightarrow> feed option" where
  "run [] f = Some f"
| "run (x # xs) f = (case call x f of None \<Rightarrow> None | Some (r, f') \<Rightarrow> run xs f')"

text \<open>
  Invariant I1 of the specification: the ids of the order list are the keys of the
  item hash.
\<close>

definition I1 :: "feed \<Rightarrow> bool" where
  "I1 f = (set (feed_ids f) = dom (feed_items f))"

text \<open>
  A feed with no item, whose id counter stands at \<open>n\<close>. A feed that was never used
  has \<open>n = 0\<close>, since \<^verbatim>\<open>INCR\<close> reads a missing key as 0.
\<close>

definition empty_feed :: "int \<Rightarrow> feed" where
  "empty_feed n =
     \<lparr>feed_ids = [], feed_items = Map.empty, feed_id_incr = n, feed_publishes = 0,
      feed_publish = [], feed_retract = [], id_replies = []\<rparr>"

text \<open>
  What holds of every feed that calls of this class have built from an empty one: I1,
  no id twice in the order list, and no id above the counter.
\<close>

definition wf_feed :: "feed \<Rightarrow> bool" where
  "wf_feed f =
     (I1 f \<and> distinct (feed_ids f) \<and> list_all (\<lambda>i. i \<le> feed_id_incr f) (feed_ids f))"

text \<open>A feed that holds one item, id 10, after one \<^verbatim>\<open>publish('a')\<close>.\<close>

definition one_item_feed :: feed where
  "one_item_feed =
     \<lparr>feed_ids = [10], feed_items = [10 \<mapsto> ''a''], feed_id_incr = 10, feed_publishes = 1,
      feed_publish = [publish_message 10 ''a''], feed_retract = [], id_replies = [10]\<rparr>"

text \<open>
  A feed whose order list holds id 5 twice, for one item. No call of this class builds
  it from an empty feed; the key set of the hash and the set of listed ids agree on it.
\<close>

definition twice_listed_feed :: feed where
  "twice_listed_feed =
     \<lparr>feed_ids = [5, 5], feed_items = [5 \<mapsto> ''a''], feed_id_incr = 5, feed_publishes = 1,
      feed_publish = [], feed_retract = [], id_replies = []\<rparr>"

section \<open>An edit and a retract of the same id, interleaved\<close>

text \<open>
  Two callers, each on a connection of its own, share the feed: one runs
  \<^verbatim>\<open>edit(i, item)\<close>, the other \<^verbatim>\<open>retract(i)\<close>. Redis runs one command at a time, and
  a \<^verbatim>\<open>MULTI\<close>/\<^verbatim>\<open>EXEC\<close> block as one command, so a run of the two methods is an
  interleaving of their Redis round trips. A caller is at one of five points of its loop:
  before \<^verbatim>\<open>watch\<close>, before \<^verbatim>\<open>hexists\<close>, before \<^verbatim>\<open>execute\<close> (the id was found),
  before \<^verbatim>\<open>unwatch\<close> (the id was missing), or returned.
\<close>

datatype pc = Start | Watched | Found | Missing | Done

record client =
  pc :: pc
  link :: conn

definition fresh_client :: client where
  "fresh_client = \<lparr>pc = Start, link = idle\<rparr>"

text \<open>
  One round trip of the editor on the feed, with the other caller's connection: a
  committed \<^verbatim>\<open>HSET\<close> writes \<^verbatim>\<open>feed.items\<close>, which marks the other connection if it
  watches the key. A caller that has returned does nothing.
\<close>

fun edit_step :: "int \<Rightarrow> string \<Rightarrow> feed \<times> client \<times> conn \<Rightarrow> feed \<times> client \<times> conn" where
  "edit_step i item (f, e, other) =
     (case pc e of
        Start \<Rightarrow> (f, e\<lparr>pc := Watched, link := watch (link e)\<rparr>, other)
      | Watched \<Rightarrow> (f, e\<lparr>pc := (if \<not> hexists f i then Missing else Found)\<rparr>, other)
      | Missing \<Rightarrow> (f, e\<lparr>pc := Done, link := unwatch (link e)\<rparr>, other)
      | Found \<Rightarrow>
          (case execute
                  [HSET i item, INCR_PUBLISHES, PUBLISH_PUBLISH (publish_message i item)]
                  (f, link e) of
             (Inr u, f', c) \<Rightarrow> (f', e\<lparr>pc := Done, link := c\<rparr>, touched other)
           | (Inl WatchError, f', c) \<Rightarrow> (f', e\<lparr>pc := Start, link := c\<rparr>, other))
      | Done \<Rightarrow> (f, e, other))"

text \<open>
  One round trip of the retractor. A committed \<^verbatim>\<open>HDEL\<close> writes \<^verbatim>\<open>feed.items\<close> when
  it deletes a field.
\<close>

fun retract_step :: "int \<Rightarrow> feed \<times> client \<times> conn \<Rightarrow> feed \<times> client \<times> conn" where
  "retract_step i (f, r, other) =
     (case pc r of
        Start \<Rightarrow> (f, r\<lparr>pc := Watched, link := watch (link r)\<rparr>, other)
      | Watched \<Rightarrow> (f, r\<lparr>pc := (if hexists f i then Found else Missing)\<rparr>, other)
      | Found \<Rightarrow>
          (case execute [LREM i 1, HDEL i, PUBLISH_RETRACT (str_int i)] (f, link r) of
             (Inr u, f', c) \<Rightarrow>
               (f', r\<lparr>pc := Done, link := c\<rparr>, if hexists f i then touched other else other)
           | (Inl WatchError, f', c) \<Rightarrow> (f', r\<lparr>pc := Start, link := c\<rparr>, other))
      | Missing \<Rightarrow> (f, r\<lparr>pc := Done, link := unwatch (link r)\<rparr>, other)
      | Done \<Rightarrow> (f, r, other))"

text \<open>
  A schedule says whose round trip comes next. \<open>race\<close> runs a schedule from the point
  where both callers have just entered their method.
\<close>

datatype who = Editor | Retractor

fun turn :: "int \<Rightarrow> string \<Rightarrow> who \<Rightarrow> feed \<times> client \<times> client \<Rightarrow> feed \<times> client \<times> client" where
  "turn i item Editor (f, e, r) =
     (case edit_step i item (f, e, link r) of (f', e', c) \<Rightarrow> (f', e', r\<lparr>link := c\<rparr>))"
| "turn i item Retractor (f, e, r) =
     (case retract_step i (f, r, link e) of (f', r', c) \<Rightarrow> (f', e\<lparr>link := c\<rparr>, r'))"

definition race :: "int \<Rightarrow> string \<Rightarrow> who list \<Rightarrow> feed \<Rightarrow> feed \<times> client \<times> client" where
  "race i item sched f = fold (turn i item) sched (f, fresh_client, fresh_client)"

text \<open>
  The feeds a race of the two callers can pass through, and what holds of the callers
  in each: nothing committed yet, only the edit committed, only the retract committed,
  both committed.
\<close>

definition edited :: "int \<Rightarrow> string \<Rightarrow> feed \<Rightarrow> feed" where
  "edited i item f =
     run_pipeline [HSET i item, INCR_PUBLISHES, PUBLISH_PUBLISH (publish_message i item)] f"

definition retracted :: "int \<Rightarrow> feed \<Rightarrow> feed" where
  "retracted i f = run_pipeline [LREM i 1, HDEL i, PUBLISH_RETRACT (str_int i)] f"

definition link_ok :: "client \<Rightarrow> bool" where
  "link_ok c =
     ((pc c = Start \<longrightarrow> link c = idle) \<and>
      (pc c = Watched \<or> pc c = Found \<longrightarrow> watching (link c)))"

definition looping :: "client \<Rightarrow> bool" where
  "looping c = (pc c = Start \<or> pc c = Watched \<or> pc c = Found)"

definition race_inv :: "int \<Rightarrow> string \<Rightarrow> feed \<Rightarrow> feed \<times> client \<times> client \<Rightarrow> bool" where
  "race_inv i item f0 cfg =
     (case cfg of (f, e, r) \<Rightarrow>
        link_ok e \<and> link_ok r \<and>
        ((f = f0 \<and> looping e \<and> looping r \<and> \<not> dirty (link e) \<and> \<not> dirty (link r)) \<or>
         (f = edited i item f0 \<and> pc e = Done \<and> looping r) \<or>
         (f = retracted i f0 \<and> pc r = Done \<and> (pc e = Found \<longrightarrow> dirty (link e))) \<or>
         (f = retracted i (edited i item f0) \<and> pc e = Done \<and> pc r = Done)))"

text \<open>
  An upper bound on the round trips a caller still needs, given whether the other caller
  has returned: a caller loops a second time only after the other one has committed.
\<close>

definition budget :: "client \<Rightarrow> bool \<Rightarrow> nat" where
  "budget c other_done =
     (case pc c of
        Done \<Rightarrow> 0
      | Missing \<Rightarrow> 1
      | Start \<Rightarrow> (if other_done then 3 else 6)
      | Watched \<Rightarrow> (if other_done \<and> \<not> dirty (link c) then 2 else 5)
      | Found \<Rightarrow> (if other_done \<and> \<not> dirty (link c) then 1 else 4))"

section \<open>The loops return\<close>

lemma execute_clean:
  "\<not> dirty c \<Longrightarrow> execute pipe (f, c) = (Inr (), run_pipeline pipe f, idle)"
  by (simp add: execute_def unwatch_def)

lemma execute_dirty:
  "dirty c \<Longrightarrow> execute pipe (f, c) = (Inl WatchError, f, idle)"
  by (simp add: execute_def unwatch_def)

lemma dirty_watch [simp]: "dirty (watch c) = dirty c"
  by (simp add: watch_def)

lemma dirty_idle [simp]: "\<not> dirty idle"
  by (simp add: idle_def)

text \<open>
  With no other connection, a pending conflict can only come from before the call:
  the first \<^verbatim>\<open>EXEC\<close> clears it and the second round commits.
\<close>

lemma edit_loop_eq:
  "edit_loop i item (f, c) =
     Some (if hexists f i
           then run_pipeline [HSET i item, INCR_PUBLISHES, PUBLISH_PUBLISH (publish_message i item)] f
           else f, idle)"
proof (cases "dirty c")
  case False
  then show ?thesis
    by (subst edit_loop.simps) (simp add: execute_clean unwatch_def)
next
  case True
  then show ?thesis
    apply (subst edit_loop.simps)
    apply (simp add: execute_dirty unwatch_def)
    apply (subst edit_loop.simps)
    apply (simp add: execute_clean unwatch_def)
    done
qed

lemma retract_loop_eq:
  "retract_loop i (f, c) =
     Some (if hexists f i
           then run_pipeline [LREM i 1, HDEL i, PUBLISH_RETRACT (str_int i)] f
           else f, idle)"
proof (cases "dirty c")
  case False
  then show ?thesis
    by (subst retract_loop.simps) (simp add: execute_clean unwatch_def)
next
  case True
  then show ?thesis
    apply (subst retract_loop.simps)
    apply (simp add: execute_dirty unwatch_def)
    apply (subst retract_loop.simps)
    apply (simp add: execute_clean unwatch_def)
    done
qed

lemma insert_loop_eq:
  "insert_loop i item rel_id m (f, c) =
     Some (if hexists f rel_id
           then (Some i, run_pipeline
                   [LINSERT m rel_id i, HSET i item, PUBLISH_PUBLISH (publish_message i item)] f, idle)
           else (None, f, idle))"
proof (cases "dirty c")
  case False
  then show ?thesis
    by (subst insert_loop.simps) (simp add: execute_clean unwatch_def)
next
  case True
  then show ?thesis
    apply (subst insert_loop.simps)
    apply (simp add: execute_dirty unwatch_def)
    apply (subst insert_loop.simps)
    apply (simp add: execute_clean unwatch_def)
    done
qed

section \<open>What each method computes\<close>

text \<open>
  Each method on a feed, as one state transformer: the loops run their body once, since
  every method starts on a connection that holds no watch.
\<close>


lemma lrem_one: "lrem i (Suc 0) xs = remove1 i xs"
  by (induction xs) (simp_all add: lrem_def)

lemma publish_eq:
  "publish item f =
     (feed_id_incr f + 1,
      f\<lparr>feed_ids := feed_ids f @ [feed_id_incr f + 1],
        feed_items := (feed_items f)(feed_id_incr f + 1 \<mapsto> item),
        feed_id_incr := feed_id_incr f + 1,
        feed_publishes := feed_publishes f + 1,
        feed_publish := feed_publish f @ [publish_message (feed_id_incr f + 1) item],
        id_replies := id_replies f @ [feed_id_incr f + 1]\<rparr>)"
  by (simp add: publish_def incr_id_def run_pipeline_def)

lemma prepend_eq:
  "prepend item f =
     (feed_id_incr f + 1,
      f\<lparr>feed_ids := (feed_id_incr f + 1) # feed_ids f,
        feed_items := (feed_items f)(feed_id_incr f + 1 \<mapsto> item),
        feed_id_incr := feed_id_incr f + 1,
        feed_publishes := feed_publishes f + 1,
        feed_publish := feed_publish f @ [publish_message (feed_id_incr f + 1) item],
        id_replies := id_replies f @ [feed_id_incr f + 1]\<rparr>)"
  by (simp add: prepend_def incr_id_def run_pipeline_def)

lemma feed_insert_eq:
  "feed_insert item rel_id m f =
     Some (if feed_items f rel_id \<noteq> None
           then (Some (feed_id_incr f + 1),
                 f\<lparr>feed_ids := linsert m rel_id (feed_id_incr f + 1) (feed_ids f),
                   feed_items := (feed_items f)(feed_id_incr f + 1 \<mapsto> item),
                   feed_id_incr := feed_id_incr f + 1,
                   feed_publish := feed_publish f @ [publish_message (feed_id_incr f + 1) item],
                   id_replies := id_replies f @ [feed_id_incr f + 1]\<rparr>)
           else (None,
                 f\<lparr>feed_id_incr := feed_id_incr f + 1,
                   id_replies := id_replies f @ [feed_id_incr f + 1]\<rparr>))"
  by (simp add: feed_insert_def incr_id_def insert_loop_eq run_pipeline_def hexists_def)

lemma edit_eq:
  "edit i item f =
     Some (if feed_items f i \<noteq> None
           then f\<lparr>feed_items := (feed_items f)(i \<mapsto> item),
                  feed_publishes := feed_publishes f + 1,
                  feed_publish := feed_publish f @ [publish_message i item]\<rparr>
           else f)"
  by (simp add: edit_def edit_loop_eq run_pipeline_def hexists_def)

lemma retract_eq:
  "retract i f =
     Some (if feed_items f i \<noteq> None
           then f\<lparr>feed_ids := remove1 i (feed_ids f),
                  feed_items := (feed_items f)(i := None),
                  feed_retract := feed_retract f @ [str_int i]\<rparr>
           else f)"
  by (simp add: retract_def retract_loop_eq run_pipeline_def hexists_def lrem_one)

section \<open>Facts about the list commands\<close>

lemma linsert_before:
  "anchor \<notin> set pre \<Longrightarrow> linsert BEFORE anchor v (pre @ anchor # post) = pre @ v # anchor # post"
  by (induction pre) auto

lemma linsert_after:
  "anchor \<notin> set pre \<Longrightarrow> linsert AFTER anchor v (pre @ anchor # post) = pre @ anchor # v # post"
  by (induction pre) auto

lemma linsert_absent: "pivot \<notin> set xs \<Longrightarrow> linsert m pivot v xs = xs"
  by (induction xs) auto

lemma set_linsert: "pivot \<in> set xs \<Longrightarrow> set (linsert m pivot v xs) = insert v (set xs)"
  by (induction xs) (auto split: placement.splits simp: linsert_absent)

lemma distinct_linsert:
  "distinct xs \<Longrightarrow> v \<notin> set xs \<Longrightarrow> distinct (linsert m pivot v xs)"
proof (induction xs)
  case Nil
  then show ?case by simp
next
  case (Cons x xs)
  then show ?case
    by (cases "pivot \<in> set xs") (auto split: placement.splits simp: set_linsert linsert_absent)
qed

lemma remove1_once:
  "count_list xs x \<le> 1 \<Longrightarrow> remove1 x xs = filter (\<lambda>y. y \<noteq> x) xs"
proof (induction xs)
  case Nil
  then show ?case by simp
next
  case (Cons y ys)
  show ?case
  proof (cases "y = x")
    case True
    with Cons.prems have "count_list ys x = 0" by simp
    then have "x \<notin> set ys" by (simp add: count_list_0_iff)
    then have "filter (\<lambda>y. y \<noteq> x) ys = ys" by (induction ys) auto
    with True show ?thesis by simp
  next
    case False
    with Cons show ?thesis by simp
  qed
qed

section \<open>Calls whose id is missing\<close>

text \<open>
  Claim C6. When the target of \<^verbatim>\<open>edit\<close> or \<^verbatim>\<open>retract\<close>, or the anchor of
  \<^verbatim>\<open>publish_before\<close> or \<^verbatim>\<open>publish_after\<close>, is not a key of the item hash, the
  call returns (no error, and the inserts return \<^verbatim>\<open>None\<close>), and the order list, the
  item hash, the publish counter and both channels are as before: \<^verbatim>\<open>edit\<close> and
  \<^verbatim>\<open>retract\<close> change nothing at all, the inserts only advance the id counter.
\<close>

theorem noop_when_id_missing:
  assumes "feed_items f i = None"
  shows "edit i item f = Some f \<and>
         retract i f = Some f \<and>
         publish_before i item f =
           Some (None, f\<lparr>feed_id_incr := feed_id_incr f + 1,
                         id_replies := id_replies f @ [feed_id_incr f + 1]\<rparr>) \<and>
         publish_after i item f =
           Some (None, f\<lparr>feed_id_incr := feed_id_incr f + 1,
                         id_replies := id_replies f @ [feed_id_incr f + 1]\<rparr>)"
  using assms by (simp add: edit_eq retract_eq publish_before_def publish_after_def feed_insert_eq)

theorem noop_when_id_missing_witness:
  "edit 999 ''z'' one_item_feed = Some one_item_feed \<and>
   retract 999 one_item_feed = Some one_item_feed \<and>
   publish_before 999 ''z'' one_item_feed =
     Some (None, one_item_feed\<lparr>feed_id_incr := feed_id_incr one_item_feed + 1,
                   id_replies := id_replies one_item_feed @ [feed_id_incr one_item_feed + 1]\<rparr>) \<and>
   publish_after 999 ''z'' one_item_feed =
     Some (None, one_item_feed\<lparr>feed_id_incr := feed_id_incr one_item_feed + 1,
                   id_replies := id_replies one_item_feed @ [feed_id_incr one_item_feed + 1]\<rparr>)"
proof -
  have h: "feed_items one_item_feed 999 = None"
    by (simp add: one_item_feed_def)
  show ?thesis by (rule noop_when_id_missing [OF h])
qed

section \<open>Where an insert puts the new id\<close>

text \<open>
  Claim C4. When the anchor is a key of the item hash and its first occurrence in the
  order list is after \<open>pre\<close> and before \<open>post\<close>, \<^verbatim>\<open>publish_before\<close> returns the new
  id and puts it immediately before that occurrence, and \<^verbatim>\<open>publish_after\<close> immediately
  after it. The instance below is the scenario of the specification: on an empty feed whose
  counter stands at 9, \<^verbatim>\<open>publish('a')\<close> returns 10, \<^verbatim>\<open>publish('b')\<close> returns 11, and
  \<^verbatim>\<open>publish_before(11, 'c')\<close> returns 12 and leaves the ids [10, 12, 11].
\<close>

theorem insert_next_to_first_anchor:
  assumes "feed_items f anchor \<noteq> None"
    and "feed_ids f = pre @ anchor # post"
    and "anchor \<notin> set pre"
  shows "(\<exists>f'. publish_before anchor item f = Some (Some (feed_id_incr f + 1), f') \<and>
               get_ids f' = pre @ (feed_id_incr f + 1) # anchor # post) \<and>
         (\<exists>f'. publish_after anchor item f = Some (Some (feed_id_incr f + 1), f') \<and>
               get_ids f' = pre @ anchor # (feed_id_incr f + 1) # post)"
  using assms
  by (simp add: publish_before_def publish_after_def feed_insert_eq get_ids_def
      linsert_before linsert_after)

theorem insert_next_to_first_anchor_witness:
  "(case publish ''a'' (empty_feed 9) of (a, f1) \<Rightarrow>
      case publish ''b'' f1 of (b, f2) \<Rightarrow>
        a = 10 \<and> b = 11 \<and>
        (\<exists>f3. publish_before 11 ''c'' f2 = Some (Some 12, f3) \<and> get_ids f3 = [10, 12, 11]) \<and>
        (\<exists>f3. publish_after 10 ''c'' f2 = Some (Some 12, f3) \<and> get_ids f3 = [10, 12, 11]))"
proof -
  obtain a f1 where p1: "publish ''a'' (empty_feed 9) = (a, f1)" by fastforce
  obtain b f2 where p2: "publish ''b'' f1 = (b, f2)" by fastforce
  have a: "a = 10" and f1: "feed_ids f1 = [10]" "feed_id_incr f1 = 10" "feed_items f1 10 = Some ''a''"
    using p1 by (auto simp: publish_eq empty_feed_def)
  have b: "b = 11" and f2: "feed_ids f2 = [10, 11]" "feed_id_incr f2 = 11"
      "feed_items f2 11 = Some ''b''" "feed_items f2 10 = Some ''a''"
    using p2 f1 by (auto simp: publish_eq)
  have "feed_items f2 11 \<noteq> None" "feed_ids f2 = [10] @ 11 # []" "11 \<notin> set [10::int]"
    using f2 by simp_all
  from insert_next_to_first_anchor [OF this, of "''c''"]
  have before: "\<exists>f3. publish_before 11 ''c'' f2 = Some (Some 12, f3) \<and> get_ids f3 = [10, 12, 11]"
    using f2 by simp
  have "feed_items f2 10 \<noteq> None" "feed_ids f2 = [] @ 10 # [11]" "10 \<notin> set ([]::int list)"
    using f2 by simp_all
  from insert_next_to_first_anchor [OF this, of "''c''"]
  have after: "\<exists>f3. publish_after 10 ''c'' f2 = Some (Some 12, f3) \<and> get_ids f3 = [10, 12, 11]"
    using f2 by simp
  show ?thesis using p1 p2 a b before after by simp
qed

section \<open>Retract\<close>

text \<open>
  Claim C7. When \<open>x\<close> is a key of the item hash, \<^verbatim>\<open>retract(x)\<close> returns, the order list
  loses the first occurrence of \<open>x\<close> and keeps every other element in place, the item hash
  loses \<open>x\<close>, and \<^verbatim>\<open>get_item(x)\<close> finds nothing. Where \<open>x\<close> stood at most once in the
  order list, it is no longer in it. The instance below is the scenario of the specification:
  after the ids [10, 12, 11], \<^verbatim>\<open>retract(12)\<close> leaves [10, 11] and no item 12.
\<close>

theorem retract_removes:
  assumes "feed_items f x \<noteq> None"
  shows "\<exists>f'. retract x f = Some f' \<and>
              get_ids f' = remove1 x (get_ids f) \<and>
              get_items f' = (get_items f)(x := None) \<and>
              get_item x f' = None \<and>
              (count_list (get_ids f) x \<le> 1 \<longrightarrow>
                 x \<notin> set (get_ids f') \<and> get_ids f' = filter (\<lambda>y. y \<noteq> x) (get_ids f))"
  using assms by (auto simp: retract_eq get_ids_def get_items_def get_item_def remove1_once)

theorem retract_removes_witness:
  "(case publish ''a'' (empty_feed 9) of (a, f1) \<Rightarrow>
      case publish ''b'' f1 of (b, f2) \<Rightarrow>
        \<exists>f3. publish_before 11 ''c'' f2 = Some (Some 12, f3) \<and> get_ids f3 = [10, 12, 11] \<and>
          (\<exists>f4. retract 12 f3 = Some f4 \<and> get_ids f4 = [10, 11] \<and> get_item 12 f4 = None))"
proof -
  obtain a f1 where p1: "publish ''a'' (empty_feed 9) = (a, f1)" by fastforce
  obtain b f2 where p2: "publish ''b'' f1 = (b, f2)" by fastforce
  have f1: "feed_ids f1 = [10]" "feed_id_incr f1 = 10" "feed_items f1 10 = Some ''a''"
    using p1 by (auto simp: publish_eq empty_feed_def)
  have f2: "feed_ids f2 = [10, 11]" "feed_id_incr f2 = 11"
      "feed_items f2 11 = Some ''b''" "feed_items f2 10 = Some ''a''"
    using p2 f1 by (auto simp: publish_eq)
  obtain f3 where p3: "publish_before 11 ''c'' f2 = Some (Some 12, f3)"
    and f3: "feed_ids f3 = [10, 12, 11]" "feed_items f3 12 = Some ''c''"
    using f2 by (simp add: publish_before_def feed_insert_eq)
  have "feed_items f3 12 \<noteq> None" using f3 by simp
  from retract_removes [OF this]
  obtain f4 where "retract 12 f3 = Some f4" "get_ids f4 = remove1 12 (get_ids f3)"
    "get_item 12 f4 = None" by blast
  then have "\<exists>f4. retract 12 f3 = Some f4 \<and> get_ids f4 = [10, 11] \<and> get_item 12 f4 = None"
    using f3 by (simp add: get_ids_def)
  then show ?thesis using p1 p2 p3 f3 by (simp add: get_ids_def)
qed

section \<open>Facts about calls and runs\<close>

lemmas call_eqs =
  publish_eq append_def prepend_eq publish_before_def publish_after_def feed_insert_eq
  edit_eq retract_eq

lemma call_total: "\<exists>r f'. call x f = Some (r, f')"
  by (cases x) (simp_all add: call_eqs)

lemma run_total: "\<exists>f'. run ops f = Some f'"
proof (induction ops arbitrary: f)
  case Nil
  then show ?case by simp
next
  case (Cons x ops)
  obtain r f1 where "call x f = Some (r, f1)" using call_total by blast
  with Cons.IH [of f1] show ?case by simp
qed

lemma call_alloc:
  assumes "call x f = Some (r, f')"
  shows "(feed_id_incr f' = feed_id_incr f \<and> id_replies f' = id_replies f \<and> r = None) \<or>
         (feed_id_incr f' = feed_id_incr f + 1 \<and>
          id_replies f' = id_replies f @ [feed_id_incr f + 1] \<and>
          (r = None \<or> r = Some (feed_id_incr f + 1)))"
  using assms by (cases x) (auto simp: call_eqs split: if_splits)

lemma run_alloc:
  "run ops f = Some f' \<Longrightarrow>
     feed_id_incr f \<le> feed_id_incr f' \<and>
     (\<exists>new. id_replies f' = id_replies f @ new \<and> sorted_wrt (<) new \<and>
            (\<forall>j\<in>set new. feed_id_incr f < j \<and> j \<le> feed_id_incr f'))"
proof (induction ops arbitrary: f)
  case Nil
  then show ?case by simp
next
  case (Cons x ops)
  from Cons.prems obtain r f1 where c: "call x f = Some (r, f1)" and r: "run ops f1 = Some f'"
    by (auto split: option.splits)
  from Cons.IH [OF r] obtain new where
    le: "feed_id_incr f1 \<le> feed_id_incr f'" and
    new: "id_replies f' = id_replies f1 @ new" "sorted_wrt (<) new"
      "\<forall>j\<in>set new. feed_id_incr f1 < j \<and> j \<le> feed_id_incr f'"
    by blast
  from call_alloc [OF c] show ?case
  proof
    assume "feed_id_incr f1 = feed_id_incr f \<and> id_replies f1 = id_replies f \<and> r = None"
    with le new show ?thesis by auto
  next
    assume a: "feed_id_incr f1 = feed_id_incr f + 1 \<and>
          id_replies f1 = id_replies f @ [feed_id_incr f + 1] \<and>
          (r = None \<or> r = Some (feed_id_incr f + 1))"
    let ?new = "(feed_id_incr f + 1) # new"
    have "id_replies f' = id_replies f @ ?new" using a new by simp
    moreover have "sorted_wrt (<) ?new" using a new by auto
    moreover have "\<forall>j\<in>set ?new. feed_id_incr f < j \<and> j \<le> feed_id_incr f'"
      using a new le by auto
    moreover have "feed_id_incr f \<le> feed_id_incr f'" using a le by simp
    ultimately show ?thesis by blast
  qed
qed

lemma call_ids_subset:
  assumes "call x f = Some (r, f')"
  shows "set (feed_ids f') \<subseteq> set (feed_ids f) \<union> {j. feed_id_incr f < j \<and> j \<le> feed_id_incr f'}"
    and "dom (feed_items f') \<subseteq> dom (feed_items f) \<union> {j. feed_id_incr f < j \<and> j \<le> feed_id_incr f'}"
proof -
  have ins: "set (linsert m p v xs) = (if p \<in> set xs then insert v (set xs) else set xs)"
    for m p v xs
    by (simp add: set_linsert linsert_absent)
  have rem: "y \<in> set (remove1 v xs) \<Longrightarrow> y \<in> set xs" for y v :: int and xs
    using notin_set_remove1 by fastforce
  show "set (feed_ids f') \<subseteq> set (feed_ids f) \<union> {j. feed_id_incr f < j \<and> j \<le> feed_id_incr f'}"
    using assms by (cases x) (auto simp: call_eqs ins split: if_splits dest: rem)
  show "dom (feed_items f') \<subseteq> dom (feed_items f) \<union> {j. feed_id_incr f < j \<and> j \<le> feed_id_incr f'}"
    using assms by (cases x) (auto simp: call_eqs split: if_splits)
qed

lemma run_ids_subset:
  "run ops f = Some f' \<Longrightarrow>
     set (feed_ids f') \<subseteq> set (feed_ids f) \<union> {j. feed_id_incr f < j \<and> j \<le> feed_id_incr f'} \<and>
     dom (feed_items f') \<subseteq> dom (feed_items f) \<union> {j. feed_id_incr f < j \<and> j \<le> feed_id_incr f'}"
proof (induction ops arbitrary: f)
  case Nil
  then show ?case by simp
next
  case (Cons x ops)
  from Cons.prems obtain r f1 where c: "call x f = Some (r, f1)" and r: "run ops f1 = Some f'"
    by (auto split: option.splits)
  have le1: "feed_id_incr f \<le> feed_id_incr f1" using call_alloc [OF c] by auto
  have le2: "feed_id_incr f1 \<le> feed_id_incr f'" using run_alloc [OF r] by simp
  from Cons.IH [OF r] call_ids_subset [OF c] le1 le2 show ?case
    by (auto; fastforce)
qed

section \<open>The id allocator\<close>

text \<open>
  Claim C2. The ids handed out by \<^verbatim>\<open>redis.incr(self.feed_id_incr)\<close> are recorded in
  \<open>id_replies\<close>, one entry per reply, whether the call that asked for the id committed
  or gave up. For every list of calls on a feed whose history is strictly increasing and
  bounded by the counter (an empty history is), every call returns, and the history
  after them is the old one followed by the new replies, strictly increasing, with no id
  twice. In the instance below the second call is an insert whose anchor is missing: its id 11
  is in the history and is in no store, and the next id is 12. Redis keeps the counter
  in 64 bits and refuses the increment at the top; the model's integers are unbounded.
\<close>

theorem allocated_ids_strictly_increase:
  assumes "sorted_wrt (<) (id_replies f)"
    and "\<forall>j\<in>set (id_replies f). j \<le> feed_id_incr f"
  shows "\<exists>f'. run ops f = Some f' \<and>
              sorted_wrt (<) (id_replies f') \<and>
              distinct (id_replies f') \<and>
              (\<forall>j\<in>set (id_replies f'). j \<le> feed_id_incr f') \<and>
              (\<exists>new. id_replies f' = id_replies f @ new)"
proof -
  obtain f' where r: "run ops f = Some f'" using run_total by blast
  from run_alloc [OF r] obtain new where
    le: "feed_id_incr f \<le> feed_id_incr f'" and
    new: "id_replies f' = id_replies f @ new" "sorted_wrt (<) new"
      "\<forall>j\<in>set new. feed_id_incr f < j \<and> j \<le> feed_id_incr f'"
    by blast
  have s: "sorted_wrt (<) (id_replies f')"
    using assms new by (fastforce simp: sorted_wrt_append)
  have "distinct (id_replies f')"
    using s by (simp add: strict_sorted_iff)
  moreover have "\<forall>j\<in>set (id_replies f'). j \<le> feed_id_incr f'"
    using assms new le by fastforce
  ultimately show ?thesis using r s new by blast
qed

theorem allocated_ids_strictly_increase_witness:
  "\<exists>f'. run [Publish ''a'', Publish_before 999 ''z'', Edit 999 ''z'', Prepend ''b'',
              Publish_after 10 ''c'', Retract 10] (empty_feed 9) = Some f' \<and>
        id_replies f' = [10, 11, 12, 13] \<and>
        get_ids f' = [12, 13] \<and>
        sorted_wrt (<) (id_replies f') \<and>
        distinct (id_replies f')"
proof -
  have h1: "sorted_wrt (<) (id_replies (empty_feed 9))"
    by (simp add: empty_feed_def)
  have h2: "\<forall>j\<in>set (id_replies (empty_feed 9)). j \<le> feed_id_incr (empty_feed 9)"
    by (simp add: empty_feed_def)
  from allocated_ids_strictly_increase [OF h1 h2]
  obtain f' where
    "run [Publish ''a'', Publish_before 999 ''z'', Edit 999 ''z'', Prepend ''b'',
              Publish_after 10 ''c'', Retract 10] (empty_feed 9) = Some f'"
    "sorted_wrt (<) (id_replies f')" "distinct (id_replies f')"
    by blast
  moreover from this(1) have "id_replies f' = [10, 11, 12, 13] \<and> get_ids f' = [12, 13]"
    by (auto simp: call_eqs empty_feed_def get_ids_def)
  ultimately show ?thesis by blast
qed

lemma run_snoc:
  "run ops f = Some f2 \<Longrightarrow> call y f2 = Some (r, f3) \<Longrightarrow> run (ops @ [y]) f = Some f3"
  by (induction ops arbitrary: f) (auto split: option.splits)

text \<open>
  Claim C5. \<^verbatim>\<open>publish_before\<close> with an anchor that is no key of the item hash returns
  \<^verbatim>\<open>None\<close> and leaves both stores as they were, but the id it took,
  \<open>feed_id_incr f + 1\<close>, is spent: after any calls that follow, every id a call returns
  and every id the allocator replies is strictly greater. On a feed built by this class
  the spent id is in neither store afterwards, a permanent gap.
\<close>

theorem discarded_id_leaves_gap:
  assumes "feed_items f x = None"
  shows "\<exists>f1. publish_before x item f = Some (None, f1) \<and>
              feed_ids f1 = feed_ids f \<and> feed_items f1 = feed_items f \<and>
              id_replies f1 = id_replies f @ [feed_id_incr f + 1] \<and>
              (\<forall>ops y. \<exists>f2 r f3.
                 run ops f1 = Some f2 \<and> call y f2 = Some (r, f3) \<and>
                 (\<forall>j. r = Some j \<longrightarrow> feed_id_incr f + 1 < j) \<and>
                 (\<exists>new. id_replies f3 = id_replies f1 @ new \<and>
                        (\<forall>j\<in>set new. feed_id_incr f + 1 < j)) \<and>
                 (wf_feed f \<longrightarrow>
                    feed_id_incr f + 1 \<notin> set (feed_ids f3) \<and>
                    feed_items f3 (feed_id_incr f + 1) = None))"
proof -
  let ?d = "feed_id_incr f + 1"
  let ?f1 = "f\<lparr>feed_id_incr := ?d, id_replies := id_replies f @ [?d]\<rparr>"
  have p: "publish_before x item f = Some (None, ?f1)"
    using assms by (simp add: publish_before_def feed_insert_eq)
  have later: "\<exists>f2 r f3.
                 run ops ?f1 = Some f2 \<and> call y f2 = Some (r, f3) \<and>
                 (\<forall>j. r = Some j \<longrightarrow> ?d < j) \<and>
                 (\<exists>new. id_replies f3 = id_replies ?f1 @ new \<and> (\<forall>j\<in>set new. ?d < j)) \<and>
                 (wf_feed f \<longrightarrow> ?d \<notin> set (feed_ids f3) \<and> feed_items f3 ?d = None)"
    for ops y
  proof -
    obtain f2 where r2: "run ops ?f1 = Some f2" using run_total by blast
    obtain r f3 where c: "call y f2 = Some (r, f3)" using call_total by blast
    have r3: "run (ops @ [y]) ?f1 = Some f3"
      using r2 c by (rule run_snoc)
    have le2: "?d \<le> feed_id_incr f2" using run_alloc [OF r2] by simp
    have ret: "\<forall>j. r = Some j \<longrightarrow> ?d < j"
      using call_alloc [OF c] le2 by auto
    from run_alloc [OF r3] obtain new where
      new: "id_replies f3 = id_replies ?f1 @ new" "\<forall>j\<in>set new. ?d < j"
      by auto
    have stores: "?d \<notin> set (feed_ids f3) \<and> feed_items f3 ?d = None" if wf: "wf_feed f"
    proof -
      have a: "?d \<notin> set (feed_ids f)"
        using wf by (auto simp: wf_feed_def list_all_iff)
      then have b: "?d \<notin> dom (feed_items f)"
        using wf by (simp add: wf_feed_def I1_def)
      from run_ids_subset [OF r3] a b show ?thesis by auto
    qed
    show ?thesis using r2 c ret new stores by blast
  qed
  show ?thesis
  proof (intro exI conjI)
    show "publish_before x item f = Some (None, ?f1)" by (rule p)
    show "\<forall>ops y. \<exists>f2 r f3.
                 run ops ?f1 = Some f2 \<and> call y f2 = Some (r, f3) \<and>
                 (\<forall>j. r = Some j \<longrightarrow> ?d < j) \<and>
                 (\<exists>new. id_replies f3 = id_replies ?f1 @ new \<and> (\<forall>j\<in>set new. ?d < j)) \<and>
                 (wf_feed f \<longrightarrow> ?d \<notin> set (feed_ids f3) \<and> feed_items f3 ?d = None)"
      using later by blast
  qed simp_all
qed

theorem discarded_id_leaves_gap_witness:
  "\<exists>f1. publish_before 999 ''z'' one_item_feed = Some (None, f1) \<and>
        get_ids f1 = [10] \<and> id_replies f1 = [10, 11] \<and>
        (\<exists>f3. call (Publish ''b'') f1 = Some (Some 12, f3) \<and> get_ids f3 = [10, 12] \<and>
              get_item 11 f3 = None \<and> id_replies f3 = [10, 11, 12])"
proof -
  have h: "feed_items one_item_feed 999 = None"
    by (simp add: one_item_feed_def)
  from discarded_id_leaves_gap [OF h, of "''z''"]
  obtain f1 where f1: "publish_before 999 ''z'' one_item_feed = Some (None, f1)"
    "feed_ids f1 = feed_ids one_item_feed" "feed_items f1 = feed_items one_item_feed"
    "id_replies f1 = id_replies one_item_feed @ [feed_id_incr one_item_feed + 1]"
    by blast
  from f1(1) have c: "feed_id_incr f1 = 11"
    by (auto simp: publish_before_def feed_insert_eq one_item_feed_def)
  have "call (Publish ''b'') f1 =
          Some (Some 12, snd (publish ''b'' f1))"
    using c by (simp add: publish_eq)
  moreover have "get_ids (snd (publish ''b'' f1)) = [10, 12]"
    "get_item 11 (snd (publish ''b'' f1)) = None"
    "id_replies (snd (publish ''b'' f1)) = [10, 11, 12]"
    using f1 c by (simp_all add: publish_eq get_ids_def get_item_def one_item_feed_def)
  ultimately show ?thesis using f1 by (simp add: get_ids_def one_item_feed_def)
qed

section \<open>Head and tail\<close>

text \<open>
  Claim C8, as amended. \<^verbatim>\<open>prepend('x')\<close> returning \<open>a\<close> followed by
  \<^verbatim>\<open>prepend('y')\<close> returning \<open>b\<close> leaves the ids \<open>[b, a]\<close> followed by the ids the feed
  held before, so exactly \<open>[b, a]\<close> on a feed whose order list was empty;
  \<^verbatim>\<open>prepend\<close> puts the new id at the head, \<^verbatim>\<open>publish\<close> and \<^verbatim>\<open>append\<close> at the tail.
\<close>

theorem prepend_at_head_publish_at_tail:
  "(case prepend x f of (a, f1) \<Rightarrow>
      case prepend y f1 of (b, f2) \<Rightarrow>
        get_ids f2 = [b, a] @ get_ids f \<and> (get_ids f = [] \<longrightarrow> get_ids f2 = [b, a])) \<and>
   (case prepend x f of (a, f1) \<Rightarrow> get_ids f1 = a # get_ids f) \<and>
   (case publish x f of (a, f1) \<Rightarrow> get_ids f1 = get_ids f @ [a]) \<and>
   (case append x f of (a, f1) \<Rightarrow> get_ids f1 = get_ids f @ [a])"
  by (simp add: prepend_eq publish_eq append_def get_ids_def)

theorem prepend_at_head_publish_at_tail_witness:
  "(case prepend ''x'' (empty_feed 0) of (a, f1) \<Rightarrow>
      case prepend ''y'' f1 of (b, f2) \<Rightarrow> a = 1 \<and> b = 2 \<and> get_ids f2 = [b, a])"
proof -
  have e: "get_ids (empty_feed 0) = []" by (simp add: get_ids_def empty_feed_def)
  have ab: "fst (prepend ''x'' (empty_feed 0)) = 1"
    "fst (prepend ''y'' (snd (prepend ''x'' (empty_feed 0)))) = 2"
    by (simp_all add: prepend_eq empty_feed_def)
  show ?thesis
    using prepend_at_head_publish_at_tail [where x = "''x''" and f = "empty_feed 0" and y = "''y''"] e ab
    by (simp add: case_prod_beta)
qed

text \<open>
  Stated for every feed, the result \<open>[b, a]\<close> fails on a feed that already holds id 10: the
  two calls return 11 and 12 and leave [12, 11, 10], not [12, 11].
\<close>

theorem prepend_on_nonempty_feed_counterexample:
  "fst (prepend ''x'' one_item_feed) = 11 \<and>
   fst (prepend ''y'' (snd (prepend ''x'' one_item_feed))) = 12 \<and>
   get_ids (snd (prepend ''y'' (snd (prepend ''x'' one_item_feed)))) = [12, 11, 10] \<and>
   get_ids (snd (prepend ''y'' (snd (prepend ''x'' one_item_feed)))) \<noteq>
     [fst (prepend ''y'' (snd (prepend ''x'' one_item_feed))), fst (prepend ''x'' one_item_feed)]"
  by (simp add: prepend_eq one_item_feed_def get_ids_def)

section \<open>Notifications\<close>

text \<open>
  Claim C9. A successful \<^verbatim>\<open>edit(i, item)\<close> and a \<^verbatim>\<open>publish(item)\<close> that is given the
  id \<open>i\<close> send the same message on the publish channel: the decimal id, one NUL byte,
  the item. Both lines of the source build it with \<^verbatim>\<open>'%s\x00%s' % (id, item)\<close>.
\<close>

theorem edit_message_same_as_publish:
  assumes "feed_items f i \<noteq> None"
    and "feed_id_incr g + 1 = i"
  shows "\<exists>f' g'. edit i item f = Some f' \<and> publish item g = (i, g') \<and>
                 feed_publish f' = feed_publish f @ [str_int i @ [CHR 0x00] @ item] \<and>
                 feed_publish g' = feed_publish g @ [str_int i @ [CHR 0x00] @ item] \<and>
                 last (feed_publish f') = last (feed_publish g')"
  using assms by (auto simp: edit_eq publish_eq publish_message_def)

theorem edit_message_same_as_publish_witness:
  "\<exists>f' g'. edit 10 ''z'' one_item_feed = Some f' \<and> publish ''z'' (empty_feed 9) = (10, g') \<and>
           last (feed_publish f') = [CHR ''1'', CHR ''0'', CHR 0x00, CHR ''z''] \<and>
           last (feed_publish g') = [CHR ''1'', CHR ''0'', CHR 0x00, CHR ''z'']"
proof -
  have h1: "feed_items one_item_feed 10 \<noteq> None" by (simp add: one_item_feed_def)
  have h2: "feed_id_incr (empty_feed 9) + 1 = 10" by (simp add: empty_feed_def)
  have s: "str_int 10 = ''10''" by code_simp
  from edit_message_same_as_publish [OF h1 h2, of "''z''"] show ?thesis
    using s by auto
qed

section \<open>The publish counter\<close>

text \<open>
  Claim C10. Every call returns, and the publish counter grows by one in
  \<^verbatim>\<open>publish\<close>, \<^verbatim>\<open>append\<close>, \<^verbatim>\<open>prepend\<close> and in an \<^verbatim>\<open>edit\<close> whose id exists, and
  is unchanged by every other call. An insert whose anchor is a key of the hash and
  stands in the order list returns the new id, sends the publish message, stores the item
  and lists the id, with the publish counter as it was.
\<close>

theorem publishes_counter_changes:
  "(\<exists>r f'. call x f = Some (r, f') \<and>
       feed_publishes f' = feed_publishes f +
         (case x of Publish item \<Rightarrow> 1 | Append item \<Rightarrow> 1 | Prepend item \<Rightarrow> 1
          | Edit i item \<Rightarrow> (if hexists f i then 1 else 0)
          | Publish_before rel_id item \<Rightarrow> 0 | Publish_after rel_id item \<Rightarrow> 0
          | Retract i \<Rightarrow> 0)) \<and>
   (hexists f anchor \<and> anchor \<in> set (feed_ids f) \<longrightarrow>
      (\<exists>f'. publish_before anchor item f = Some (Some (feed_id_incr f + 1), f') \<and>
         feed_publishes f' = feed_publishes f \<and>
         feed_publish f' = feed_publish f @ [publish_message (feed_id_incr f + 1) item] \<and>
         feed_items f' (feed_id_incr f + 1) = Some item \<and>
         feed_id_incr f + 1 \<in> set (feed_ids f')) \<and>
      (\<exists>f'. publish_after anchor item f = Some (Some (feed_id_incr f + 1), f') \<and>
         feed_publishes f' = feed_publishes f \<and>
         feed_publish f' = feed_publish f @ [publish_message (feed_id_incr f + 1) item] \<and>
         feed_items f' (feed_id_incr f + 1) = Some item \<and>
         feed_id_incr f + 1 \<in> set (feed_ids f')))"
proof -
  have "\<exists>r f'. call x f = Some (r, f') \<and>
       feed_publishes f' = feed_publishes f +
         (case x of Publish item \<Rightarrow> 1 | Append item \<Rightarrow> 1 | Prepend item \<Rightarrow> 1
          | Edit i item \<Rightarrow> (if hexists f i then 1 else 0)
          | Publish_before rel_id item \<Rightarrow> 0 | Publish_after rel_id item \<Rightarrow> 0
          | Retract i \<Rightarrow> 0)"
    by (cases x) (auto simp: call_eqs hexists_def)
  moreover have "\<exists>f'. feed_insert item anchor m f = Some (Some (feed_id_incr f + 1), f') \<and>
         feed_publishes f' = feed_publishes f \<and>
         feed_publish f' = feed_publish f @ [publish_message (feed_id_incr f + 1) item] \<and>
         feed_items f' (feed_id_incr f + 1) = Some item \<and>
         feed_id_incr f + 1 \<in> set (feed_ids f')"
    if "hexists f anchor" "anchor \<in> set (feed_ids f)" for m
    using that by (auto simp: feed_insert_eq hexists_def set_linsert)
  ultimately show ?thesis
    unfolding publish_before_def publish_after_def by blast
qed

theorem publishes_counter_changes_witness:
  "(\<exists>f'. publish_before 10 ''c'' one_item_feed = Some (Some 11, f') \<and>
         feed_publishes f' = 1 \<and> feed_publishes one_item_feed = 1 \<and>
         length (feed_publish f') = 2 \<and> get_item 11 f' = Some ''c'' \<and> get_ids f' = [11, 10]) \<and>
   (\<exists>f'. publish_after 10 ''c'' one_item_feed = Some (Some 11, f') \<and>
         feed_publishes f' = 1 \<and> get_ids f' = [10, 11]) \<and>
   (\<exists>f'. call (Edit 10 ''z'') one_item_feed = Some (None, f') \<and> feed_publishes f' = 2)"
proof -
  have h: "hexists one_item_feed 10 \<and> 10 \<in> set (feed_ids one_item_feed)"
    by (simp add: hexists_def one_item_feed_def)
  note t = publishes_counter_changes [of _ one_item_feed 10 "''c''"]
  from t [of "Edit 10 ''z''"] h
  have e: "\<exists>f'. call (Edit 10 ''z'') one_item_feed = Some (None, f') \<and> feed_publishes f' = 2"
    by (auto simp: one_item_feed_def edit_eq)
  from t [of "Retract 10"] h
  have b: "\<exists>f'. publish_before 10 ''c'' one_item_feed = Some (Some 11, f') \<and>
         feed_publishes f' = 1 \<and> feed_publishes one_item_feed = 1 \<and>
         length (feed_publish f') = 2 \<and> get_item 11 f' = Some ''c'' \<and> get_ids f' = [11, 10]"
    by (simp add: publish_before_def feed_insert_eq one_item_feed_def get_item_def get_ids_def)
  have a: "\<exists>f'. publish_after 10 ''c'' one_item_feed = Some (Some 11, f') \<and>
         feed_publishes f' = 1 \<and> get_ids f' = [10, 11]"
    by (simp add: publish_after_def feed_insert_eq one_item_feed_def get_item_def get_ids_def)
  show ?thesis using e b a by blast
qed


section \<open>Invariant I1\<close>

lemma set_remove1_once:
  "count_list xs x \<le> 1 \<Longrightarrow> set (remove1 x xs) = set xs - {x}"
  by (auto simp: remove1_once)

lemma distinct_count_le_1: "distinct xs \<Longrightarrow> count_list xs x \<le> 1"
  by (induction xs) (auto simp: count_list_0_iff)

lemma feed_insert_I1:
  assumes "I1 f" and "feed_insert item rel_id m f = Some (r, f')"
  shows "I1 f'"
proof (cases "feed_items f rel_id = None")
  case True
  with assms show ?thesis by (auto simp: I1_def feed_insert_eq)
next
  case False
  then have "rel_id \<in> set (feed_ids f)"
    using assms(1) by (auto simp: I1_def)
  then have "set (linsert m rel_id (feed_id_incr f + 1) (feed_ids f)) =
      insert (feed_id_incr f + 1) (set (feed_ids f))"
    by (rule set_linsert)
  with False assms show ?thesis by (auto simp: I1_def feed_insert_eq)
qed

lemma call_I1:
  assumes "I1 f"
    and "\<forall>i. x = Retract i \<longrightarrow> count_list (feed_ids f) i \<le> 1"
    and "call x f = Some (r, f')"
  shows "I1 f'"
proof (cases x)
  case (Publish_before rel_id item)
  with assms show ?thesis
    by (simp add: publish_before_def feed_insert_I1)
next
  case (Publish_after rel_id item)
  with assms show ?thesis
    by (simp add: publish_after_def feed_insert_I1)
next
  case (Retract i)
  with assms show ?thesis
    by (auto simp: I1_def call_eqs set_remove1_once split: if_splits)
qed (use assms in \<open>auto simp: I1_def call_eqs split: if_splits\<close>)

lemma call_wf:
  assumes "wf_feed f" and "call x f = Some (r, f')"
  shows "wf_feed f'"
proof -
  have once: "count_list (feed_ids f) i \<le> 1" for i
    using assms(1) distinct_count_le_1 [of "feed_ids f" i] by (simp add: wf_feed_def)
  have i1: "I1 f'"
    using call_I1 [OF _ _ assms(2)] assms(1) once by (simp add: wf_feed_def)
  have fresh: "feed_id_incr f + 1 \<notin> set (feed_ids f)"
    using assms(1) by (auto simp: wf_feed_def list_all_iff)
  have d: "distinct (feed_ids f')"
    using assms fresh
    by (cases x) (auto simp: wf_feed_def call_eqs distinct_linsert split: if_splits)
  have le: "feed_id_incr f \<le> feed_id_incr f'"
    using call_alloc [OF assms(2)] by auto
  have "\<forall>j\<in>set (feed_ids f'). j \<le> feed_id_incr f'"
    using call_ids_subset(1) [OF assms(2)] assms(1) le
    by (fastforce simp: wf_feed_def list_all_iff)
  then show ?thesis using i1 d by (simp add: wf_feed_def list_all_iff)
qed

lemma run_wf: "wf_feed f \<Longrightarrow> run ops f = Some f' \<Longrightarrow> wf_feed f'"
proof (induction ops arbitrary: f)
  case Nil
  then show ?case by simp
next
  case (Cons x ops)
  from Cons.prems obtain r f1 where c: "call x f = Some (r, f1)" and r: "run ops f1 = Some f'"
    by (auto split: option.splits)
  from call_wf [OF Cons.prems(1) c] r show ?case by (rule Cons.IH)
qed

lemma wf_empty_feed: "wf_feed (empty_feed n)"
  by (simp add: wf_feed_def I1_def empty_feed_def)

text \<open>
  Claim C1, as amended. Every call made on a feed that satisfies I1 returns and leaves a
  feed that satisfies I1, provided that a retracted id stands at most once in the order
  list; and every feed built from an empty one by calls of this class satisfies I1 and
  lists no id twice.
\<close>

theorem I1_reestablished:
  "(I1 f \<and> (\<forall>i. x = Retract i \<longrightarrow> count_list (feed_ids f) i \<le> 1) \<longrightarrow>
      (\<exists>r f'. call x f = Some (r, f') \<and> I1 f')) \<and>
   (\<exists>f'. run ops (empty_feed n) = Some f' \<and> I1 f' \<and> distinct (feed_ids f'))"
proof -
  have "\<exists>r f'. call x f = Some (r, f') \<and> I1 f'"
    if "I1 f" "\<forall>i. x = Retract i \<longrightarrow> count_list (feed_ids f) i \<le> 1"
  proof -
    obtain r f' where c: "call x f = Some (r, f')" using call_total by blast
    with call_I1 [OF that c] show ?thesis by blast
  qed
  moreover have "\<exists>f'. run ops (empty_feed n) = Some f' \<and> I1 f' \<and> distinct (feed_ids f')"
  proof -
    obtain f' where r: "run ops (empty_feed n) = Some f'" using run_total by blast
    from run_wf [OF wf_empty_feed r] r show ?thesis by (auto simp: wf_feed_def)
  qed
  ultimately show ?thesis by blast
qed

theorem I1_reestablished_witness:
  "I1 one_item_feed \<and> count_list (feed_ids one_item_feed) 10 \<le> 1 \<and>
   (\<exists>r f'. call (Retract 10) one_item_feed = Some (r, f') \<and> I1 f' \<and> get_ids f' = [])"
proof -
  have h: "I1 one_item_feed \<and>
      (\<forall>i. Retract 10 = Retract i \<longrightarrow> count_list (feed_ids one_item_feed) i \<le> 1)"
    by (simp add: I1_def one_item_feed_def)
  with I1_reestablished [of one_item_feed "Retract 10"]
  obtain r f' where c: "call (Retract 10) one_item_feed = Some (r, f')" "I1 f'"
    by blast
  from c(1) have "get_ids f' = []"
    by (auto simp: retract_eq one_item_feed_def get_ids_def)
  with c h show ?thesis by auto
qed

text \<open>
  I1 alone, asked of the feed a call starts from, is not enough for retract. On the feed
  that lists id 5 twice, \<^verbatim>\<open>retract(5)\<close> removes one occurrence (\<^verbatim>\<open>LREM\<close> with count 1)
  and the hash field: id 5 is still in the order list and no longer in the hash.
\<close>

theorem I1_lost_by_retract_counterexample:
  "I1 twice_listed_feed \<and>
   map_option get_ids (retract 5 twice_listed_feed) = Some [5] \<and>
   map_option (get_item 5) (retract 5 twice_listed_feed) = Some None \<and>
   map_option I1 (retract 5 twice_listed_feed) = Some False"
  by (simp add: I1_def twice_listed_feed_def retract_eq get_ids_def get_item_def)

section \<open>The race of an edit and a retract\<close>

lemma hexists_edited [simp]: "hexists (edited i item f) j = (j = i \<or> hexists f j)"
  by (simp add: edited_def run_pipeline_def hexists_def)

lemma hexists_retracted [simp]: "hexists (retracted i f) j = (j \<noteq> i \<and> hexists f j)"
  by (simp add: retracted_def run_pipeline_def hexists_def)

lemma touched_idle [simp]: "touched idle = idle"
  by (simp add: touched_def idle_def)

lemma watching_touched [simp]: "watching (touched c) = watching c"
  by (simp add: touched_def)

lemma dirty_touched [simp]: "dirty (touched c) = (dirty c \<or> watching c)"
  by (simp add: touched_def)

lemma watching_watch [simp]: "watching (watch c)"
  by (simp add: watch_def)

lemma race_inv_start: "race_inv i item f (f, fresh_client, fresh_client)"
  by (simp add: race_inv_def link_ok_def looping_def fresh_client_def)

lemma race_inv_edit_turn:
  assumes "hexists f0 i" and "race_inv i item f0 (f, e, r)"
  shows "race_inv i item f0 (turn i item Editor (f, e, r))"
proof (cases "pc e")
  case Start
  with assms show ?thesis
    by (auto simp: race_inv_def link_ok_def looping_def)
next
  case Watched
  with assms show ?thesis
    by (auto simp: race_inv_def link_ok_def looping_def)
next
  case Found
  show ?thesis
  proof (cases "dirty (link e)")
    case True
    with Found assms show ?thesis
      by (auto simp: race_inv_def link_ok_def looping_def execute_dirty)
  next
    case False
    with Found assms show ?thesis
      by (auto simp: race_inv_def link_ok_def looping_def execute_clean edited_def)
  qed
next
  case Missing
  with assms show ?thesis
    by (auto simp: race_inv_def link_ok_def looping_def)
next
  case Done
  with assms show ?thesis
    by (auto simp: race_inv_def link_ok_def looping_def)
qed

lemma race_inv_retract_turn:
  assumes "hexists f0 i" and "race_inv i item f0 (f, e, r)"
  shows "race_inv i item f0 (turn i item Retractor (f, e, r))"
proof (cases "pc r")
  case Start
  with assms show ?thesis
    by (auto simp: race_inv_def link_ok_def looping_def)
next
  case Watched
  with assms show ?thesis
    by (auto simp: race_inv_def link_ok_def looping_def)
next
  case Found
  show ?thesis
  proof (cases "dirty (link r)")
    case True
    with Found assms show ?thesis
      by (auto simp: race_inv_def link_ok_def looping_def execute_dirty)
  next
    case False
    with Found assms show ?thesis
      by (auto simp: race_inv_def link_ok_def looping_def execute_clean retracted_def)
  qed
next
  case Missing
  with assms show ?thesis
    by (auto simp: race_inv_def link_ok_def looping_def)
next
  case Done
  with assms show ?thesis
    by (auto simp: race_inv_def link_ok_def looping_def)
qed

lemma race_inv_turn:
  assumes "hexists f0 i" and "race_inv i item f0 cfg"
  shows "race_inv i item f0 (turn i item w cfg)"
proof -
  obtain f e r where cfg: "cfg = (f, e, r)" by (cases cfg) auto
  show ?thesis
    using assms race_inv_edit_turn race_inv_retract_turn unfolding cfg by (cases w) blast+
qed

lemma race_inv_fold:
  "hexists f0 i \<Longrightarrow> race_inv i item f0 cfg \<Longrightarrow> race_inv i item f0 (fold (turn i item) sched cfg)"
  by (induction sched arbitrary: cfg) (simp_all add: race_inv_turn)

lemma race_inv_race: "hexists f i \<Longrightarrow> race_inv i item f (race i item sched f)"
  unfolding race_def by (rule race_inv_fold [OF _ race_inv_start])


lemma budget_zero: "budget c od = 0 \<longleftrightarrow> pc c = Done"
  by (cases "pc c") (simp_all add: budget_def)

text \<open>The editor's bound drops with each of its round trips and never grows.\<close>

lemma budget_edit_turn:
  assumes "hexists f0 i" and "race_inv i item f0 (f, e, r)"
    and "turn i item Editor (f, e, r) = (f', e', r')"
  shows "budget e' (pc r' = Done) \<le> budget e (pc r = Done) - 1"
    and "budget r' (pc e' = Done) \<le> budget r (pc e = Done)"
proof -
  show "budget e' (pc r' = Done) \<le> budget e (pc r = Done) - 1"
  proof (cases "pc e")
    case Found
    show ?thesis
    proof (cases "dirty (link e)")
      case True
      with Found assms show ?thesis
        by (auto simp: race_inv_def link_ok_def looping_def budget_def execute_dirty)
    next
      case False
      with Found assms show ?thesis
        by (auto simp: race_inv_def link_ok_def looping_def budget_def execute_clean)
    qed
  qed (use assms in \<open>auto simp: race_inv_def link_ok_def looping_def budget_def\<close>)
  show "budget r' (pc e' = Done) \<le> budget r (pc e = Done)"
  proof (cases "pc e")
    case Found
    show ?thesis
    proof (cases "dirty (link e)")
      case True
      with Found assms show ?thesis
        by (auto simp: race_inv_def link_ok_def looping_def budget_def execute_dirty)
    next
      case False
      with Found assms show ?thesis
        by (cases "pc r")
          (auto simp: race_inv_def link_ok_def looping_def budget_def execute_clean)
    qed
  qed (use assms in \<open>auto simp: race_inv_def link_ok_def looping_def budget_def\<close>)
qed

lemma budget_retract_turn:
  assumes "hexists f0 i" and "race_inv i item f0 (f, e, r)"
    and "turn i item Retractor (f, e, r) = (f', e', r')"
  shows "budget r' (pc e' = Done) \<le> budget r (pc e = Done) - 1"
    and "budget e' (pc r' = Done) \<le> budget e (pc r = Done)"
proof -
  show "budget r' (pc e' = Done) \<le> budget r (pc e = Done) - 1"
  proof (cases "pc r")
    case Found
    show ?thesis
    proof (cases "dirty (link r)")
      case True
      with Found assms show ?thesis
        by (auto simp: race_inv_def link_ok_def looping_def budget_def execute_dirty)
    next
      case False
      with Found assms show ?thesis
        by (auto simp: race_inv_def link_ok_def looping_def budget_def execute_clean)
    qed
  qed (use assms in \<open>auto simp: race_inv_def link_ok_def looping_def budget_def\<close>)
  show "budget e' (pc r' = Done) \<le> budget e (pc r = Done)"
  proof (cases "pc r")
    case Found
    show ?thesis
    proof (cases "dirty (link r)")
      case True
      with Found assms show ?thesis
        by (auto simp: race_inv_def link_ok_def looping_def budget_def execute_dirty)
    next
      case False
      with Found assms show ?thesis
        by (cases "pc e")
          (auto simp: race_inv_def link_ok_def looping_def budget_def execute_clean)
    qed
  qed (use assms in \<open>auto simp: race_inv_def link_ok_def looping_def budget_def\<close>)
qed

lemma budget_fold:
  assumes "hexists f0 i" and "race_inv i item f0 (f, e, r)"
    and "fold (turn i item) sched (f, e, r) = (f', e', r')"
  shows "budget e' (pc r' = Done) \<le> budget e (pc r = Done) - count_list sched Editor \<and>
         budget r' (pc e' = Done) \<le> budget r (pc e = Done) - count_list sched Retractor"
  using assms(2,3)
proof (induction sched arbitrary: f e r)
  case Nil
  then show ?case by simp
next
  case (Cons w sched)
  obtain f1 e1 r1 where t: "turn i item w (f, e, r) = (f1, e1, r1)"
    by (cases "turn i item w (f, e, r)") auto
  have inv1: "race_inv i item f0 (f1, e1, r1)"
    using race_inv_turn [OF assms(1) Cons.prems(1), of w] t by simp
  have rest: "fold (turn i item) sched (f1, e1, r1) = (f', e', r')"
    using Cons.prems(2) t by simp
  note ih = Cons.IH [OF inv1 rest]
  show ?case
  proof (cases w)
    case Editor
    with budget_edit_turn [OF assms(1) Cons.prems(1)] t ih show ?thesis
      by fastforce
  next
    case Retractor
    with budget_retract_turn [OF assms(1) Cons.prems(1)] t ih show ?thesis
      by fastforce
  qed
qed

lemma race_returns:
  assumes "hexists f i" and "race i item sched f = (f', e, r)"
    and "6 \<le> count_list sched Editor" and "6 \<le> count_list sched Retractor"
  shows "pc e = Done \<and> pc r = Done"
proof -
  have "fold (turn i item) sched (f, fresh_client, fresh_client) = (f', e, r)"
    using assms(2) by (simp add: race_def)
  from budget_fold [OF assms(1) race_inv_start this]
  have "budget e (pc r = Done) \<le> 6 - count_list sched Editor"
    "budget r (pc e = Done) \<le> 6 - count_list sched Retractor"
    by (simp_all add: budget_def fresh_client_def)
  with assms(3,4) show ?thesis by (simp add: budget_zero)
qed


lemma edit_edited: "edit i item f = Some (if hexists f i then edited i item f else f)"
  by (simp add: edit_def edit_loop_eq edited_def)

lemma retract_retracted: "retract i f = Some (if hexists f i then retracted i f else f)"
  by (simp add: retract_def retract_loop_eq retracted_def)

lemma feed_edited [simp]:
  "feed_ids (edited i item f) = feed_ids f"
  "feed_items (edited i item f) = (feed_items f)(i \<mapsto> item)"
  by (simp_all add: edited_def run_pipeline_def)

lemma feed_retracted [simp]:
  "feed_ids (retracted i f) = remove1 i (feed_ids f)"
  "feed_items (retracted i f) = (feed_items f)(i := None)"
  by (simp_all add: retracted_def run_pipeline_def lrem_one)

lemma I1_edited: "I1 f \<Longrightarrow> hexists f i \<Longrightarrow> I1 (edited i item f)"
  by (auto simp: I1_def hexists_def)

lemma I1_retracted: "I1 f \<Longrightarrow> distinct (feed_ids f) \<Longrightarrow> I1 (retracted i f)"
  by (auto simp: I1_def)

text \<open>A caller that runs alone makes the round trips of the sequential method.\<close>

lemma editor_alone:
  "fold (turn i item) [Editor, Editor, Editor] (f, fresh_client, r) =
     (f', e', r') \<Longrightarrow> pc e' = Done \<and> edit i item f = Some f'"
  by (auto simp: fresh_client_def execute_clean edit_edited edited_def split: if_splits)

lemma retractor_alone:
  "fold (turn i item) [Retractor, Retractor, Retractor] (f, e, fresh_client) =
     (f', e', r') \<Longrightarrow> pc r' = Done \<and> retract i f = Some f'"
  by (auto simp: fresh_client_def execute_clean retract_retracted retracted_def split: if_splits)

text \<open>
  Claim C3. \<^verbatim>\<open>edit(i, item)\<close> and \<^verbatim>\<open>retract(i)\<close> start together on a feed built by this
  class in which \<open>i\<close> is a key of the item hash. After every schedule of their round trips,
  so at every moment of every interleaving, the feed satisfies I1, and \<open>i\<close> is in the order
  list exactly when it is in the hash. Once both callers have returned, \<open>i\<close> is in neither
  store: of the two outcomes, content updated and id removed, exactly the second holds,
  and the feed is the one that the two methods leave when they run one after the other,
  in one of the two orders. Both callers have returned as soon as each has had six round
  trips.
\<close>

theorem edit_retract_race:
  assumes "wf_feed f" and "feed_items f i \<noteq> None"
  shows "case race i item sched f of (f', e, r) \<Rightarrow>
           I1 f' \<and>
           (i \<in> set (get_ids f') \<longleftrightarrow> get_item i f' \<noteq> None) \<and>
           (pc e = Done \<and> pc r = Done \<longrightarrow>
              i \<notin> set (get_ids f') \<and> get_item i f' = None \<and>
              ((get_item i f' = Some item \<and> i \<in> set (get_ids f')) \<noteq>
               (get_item i f' = None \<and> i \<notin> set (get_ids f'))) \<and>
              (Some f' = Option.bind (edit i item f) (retract i) \<or>
               Some f' = Option.bind (retract i f) (edit i item))) \<and>
           (6 \<le> count_list sched Editor \<and> 6 \<le> count_list sched Retractor \<longrightarrow>
              pc e = Done \<and> pc r = Done)"
proof -
  obtain f' e r where race: "race i item sched f = (f', e, r)"
    by (cases "race i item sched f") auto
  have ex: "hexists f i" using assms(2) by (simp add: hexists_def)
  have i1: "I1 f" and d: "distinct (feed_ids f)"
    using assms(1) by (simp_all add: wf_feed_def)
  have inv: "race_inv i item f (f', e, r)"
    using race_inv_race [OF ex, of item sched] race by simp
  then consider
      (none) "f' = f" "looping e" "looping r"
    | (edit) "f' = edited i item f" "pc e = Done" "looping r"
    | (retract) "f' = retracted i f" "pc r = Done"
    | (both) "f' = retracted i (edited i item f)" "pc e = Done" "pc r = Done"
    by (auto simp: race_inv_def)
  then have feeds:
    "I1 f' \<and> (i \<in> set (get_ids f') \<longleftrightarrow> get_item i f' \<noteq> None) \<and>
     (pc e = Done \<and> pc r = Done \<longrightarrow>
        i \<notin> set (get_ids f') \<and> get_item i f' = None \<and>
        (Some f' = Option.bind (edit i item f) (retract i) \<or>
         Some f' = Option.bind (retract i f) (edit i item)))"
  proof cases
    case none
    then show ?thesis
      using i1 ex by (auto simp: looping_def I1_def hexists_def get_ids_def get_item_def)
  next
    case edit
    then show ?thesis
      using I1_edited [OF i1 ex, of item] i1 ex
      by (auto simp: looping_def I1_def hexists_def get_ids_def get_item_def)
  next
    case retract
    then show ?thesis
      using I1_retracted [OF i1 d, of i] d ex
      by (simp add: get_ids_def get_item_def edit_edited retract_retracted)
  next
    case both
    have "I1 (retracted i (edited i item f))"
      using I1_retracted [OF I1_edited [OF i1 ex]] d by simp
    with both show ?thesis
      using d ex by (simp add: get_ids_def get_item_def edit_edited retract_retracted)
  qed
  have "6 \<le> count_list sched Editor \<and> 6 \<le> count_list sched Retractor \<longrightarrow>
      pc e = Done \<and> pc r = Done"
    using race_returns [OF ex race] by blast
  with feeds show ?thesis unfolding race by auto
qed


lemma wf_one_item_feed: "wf_feed one_item_feed"
  by (simp add: wf_feed_def I1_def one_item_feed_def)

theorem edit_retract_race_witness:
  "(case race 10 ''z''
           [Editor, Retractor, Editor, Retractor, Editor, Retractor,
            Retractor, Retractor, Retractor, Editor, Editor, Editor] one_item_feed of
      (f', e, r) \<Rightarrow>
        pc e = Done \<and> pc r = Done \<and> I1 f' \<and> get_ids f' = [] \<and> get_item 10 f' = None \<and>
        feed_publishes f' = 2 \<and> length (feed_publish f') = 2 \<and> length (feed_retract f') = 1 \<and>
        Some f' = Option.bind (edit 10 ''z'' one_item_feed) (retract 10)) \<and>
   (case race 10 ''z'' [Editor, Retractor, Editor, Retractor, Editor] one_item_feed of
      (f', e, r) \<Rightarrow>
        pc e = Done \<and> pc r = Found \<and> I1 f' \<and> get_ids f' = [10] \<and> get_item 10 f' = Some ''z'')"
proof -
  let ?s = "[Editor, Retractor, Editor, Retractor, Editor, Retractor,
            Retractor, Retractor, Retractor, Editor, Editor, Editor]"
  have h: "feed_items one_item_feed 10 \<noteq> None" by (simp add: one_item_feed_def)
  have c: "6 \<le> count_list ?s Editor \<and> 6 \<le> count_list ?s Retractor" by simp
  obtain f' e r where r1: "race 10 ''z'' ?s one_item_feed = (f', e, r)"
    by (cases "race 10 ''z'' ?s one_item_feed") auto
  obtain f2 e2 r2 where
    r2: "race 10 ''z'' [Editor, Retractor, Editor, Retractor, Editor] one_item_feed = (f2, e2, r2)"
    by (cases "race 10 ''z'' [Editor, Retractor, Editor, Retractor, Editor] one_item_feed") auto
  have ev: "hexists one_item_feed 10" by (simp add: hexists_def one_item_feed_def)
  have v1: "feed_publishes f' = 2 \<and> length (feed_publish f') = 2 \<and>
      length (feed_retract f') = 1 \<and> get_ids f' = []"
    using r1 ev
    by (auto simp: race_def fresh_client_def execute_def watch_def unwatch_def idle_def
        touched_def run_pipeline_def hexists_def one_item_feed_def get_ids_def lrem_one)
  have v2: "pc e2 = Done \<and> pc r2 = Found \<and> get_ids f2 = [10] \<and> get_item 10 f2 = Some ''z''"
    using r2 ev
    by (auto simp: race_def fresh_client_def execute_def watch_def unwatch_def idle_def
        touched_def run_pipeline_def hexists_def one_item_feed_def get_ids_def get_item_def)
  have t1: "pc e = Done \<and> pc r = Done \<and> I1 f' \<and> get_item 10 f' = None \<and>
      (Some f' = Option.bind (edit 10 ''z'' one_item_feed) (retract 10) \<or>
       Some f' = Option.bind (retract 10 one_item_feed) (edit 10 ''z''))"
    using edit_retract_race [OF wf_one_item_feed h, of "''z''" ?s] r1 c by simp
  have "Option.bind (retract 10 one_item_feed) (edit 10 ''z'') = Some (retracted 10 one_item_feed)"
    using ev by (simp add: retract_retracted edit_edited)
  moreover have "feed_publishes (retracted 10 one_item_feed) = 1"
    by (simp add: retracted_def run_pipeline_def one_item_feed_def)
  ultimately have "Some f' \<noteq> Option.bind (retract 10 one_item_feed) (edit 10 ''z'')"
    using v1 by auto
  with t1 have t1': "Some f' = Option.bind (edit 10 ''z'' one_item_feed) (retract 10)"
    by blast
  have t2: "I1 f2"
    using edit_retract_race [OF wf_one_item_feed h, of "''z''"
        "[Editor, Retractor, Editor, Retractor, Editor]"] r2 by simp
  show ?thesis using r1 r2 v1 v2 t1 t1' t2 by simp
qed

text \<open>
  The other order: the retract commits while the editor waits before \<^verbatim>\<open>execute\<close>. The
  editor's \<^verbatim>\<open>EXEC\<close> fails, its second round finds no id and it returns without a
  publish.
\<close>

lemma retract_first_race:
  "(case race 10 ''z''
           [Editor, Editor, Retractor, Retractor, Retractor, Editor, Editor, Editor, Editor]
           one_item_feed of
      (f', e, r) \<Rightarrow>
        pc e = Done \<and> pc r = Done \<and> get_ids f' = [] \<and> get_item 10 f' = None \<and>
        feed_publishes f' = 1 \<and> length (feed_publish f') = 1 \<and> length (feed_retract f') = 1 \<and>
        Some f' = Option.bind (retract 10 one_item_feed) (edit 10 ''z''))"
proof -
  have ev: "hexists one_item_feed 10" by (simp add: hexists_def one_item_feed_def)
  obtain f' e r where r1: "race 10 ''z''
           [Editor, Editor, Retractor, Retractor, Retractor, Editor, Editor, Editor, Editor]
           one_item_feed = (f', e, r)"
    using prod_cases3 by blast
  have v1: "pc e = Done \<and> pc r = Done \<and> f' = retracted 10 one_item_feed"
    using r1 ev
    by (auto simp: race_def fresh_client_def execute_def watch_def unwatch_def idle_def
        touched_def hexists_def retracted_def run_pipeline_def)
  have "Option.bind (retract 10 one_item_feed) (edit 10 ''z'') = Some (retracted 10 one_item_feed)"
    using ev by (simp add: retract_retracted edit_edited)
  moreover have "get_ids (retracted 10 one_item_feed) = []"
    "get_item 10 (retracted 10 one_item_feed) = None"
    "feed_publishes (retracted 10 one_item_feed) = 1"
    "length (feed_publish (retracted 10 one_item_feed)) = 1"
    "length (feed_retract (retracted 10 one_item_feed)) = 1"
    by (simp_all add: retracted_def run_pipeline_def one_item_feed_def get_ids_def get_item_def
        lrem_one)
  ultimately show ?thesis using r1 v1 by simp
qed

end
